theory Spec2Isabelle
  imports Complex_Main "HOL-Library.AList" "HOL-Library.Char_ord" "HOL-Library.List_Lexorder"
begin

section \<open>The search cache of file_knowledge_mcp/search/cache.py\<close>

text \<open>
  The Python class \<^verbatim>\<open>SearchCache\<close> keeps a dict from a 16-character fingerprint to a
  \<^verbatim>\<open>CacheEntry\<close>. A Python dict iterates in insertion order, and \<^verbatim>\<open>min\<close> returns the
  first minimal element it meets, so the dict is modelled as an association list in
  insertion order: lookup is \<^const>\<open>map_of\<close>, item assignment is \<^const>\<open>AList.update\<close>
  (in place for a present key, appended for a new one) and \<^verbatim>\<open>del\<close> is
  \<^const>\<open>AList.delete\<close>. The keys of a dict are pairwise different; the model calls a
  list with that property well formed.

  The clock \<^verbatim>\<open>time.time()\<close> is an argument \<open>now\<close> of each operation that reads it.
  Timestamps are Python floats; they are modelled as reals, so rounding in the
  subtraction \<^verbatim>\<open>time.time() - entry.created_at\<close> is not represented.
\<close>

subsection \<open>Data\<close>

record 'r CacheEntry =
  result :: 'r
  created_at :: real
  hits :: int

record 'r SearchCache =
  max_size :: int
  ttl_seconds :: int
  cache :: "(string \<times> 'r CacheEntry) list"

text \<open>
  The library functions the module calls are parameters of the model:
  \<^verbatim>\<open>hashlib.sha256(s.encode()).hexdigest()\<close>, \<^verbatim>\<open>repr\<close> on a parameter name (a str) and
  \<^verbatim>\<open>repr\<close> on a parameter value.
\<close>

record 'v builtins =
  sha256_hexdigest :: "string \<Rightarrow> string"
  repr_str :: "string \<Rightarrow> string"
  repr_value :: "'v \<Rightarrow> string"

definition wf_dict :: "('k \<times> 'e) list \<Rightarrow> bool" where
  "wf_dict d = distinct (map fst d)"

subsection \<open>Key derivation\<close>

fun join :: "string \<Rightarrow> string list \<Rightarrow> string" where
  "join sep [] = []"
| "join sep [x] = x"
| "join sep (x # y # ys) = x @ sep @ join sep (y # ys)"

definition repr_item :: "'v builtins \<Rightarrow> string \<times> 'v \<Rightarrow> string" where
  "repr_item B kv = ''('' @ repr_str B (fst kv) @ '', '' @ repr_value B (snd kv) @ '')''"

definition repr_items :: "'v builtins \<Rightarrow> (string \<times> 'v) list \<Rightarrow> string" where
  "repr_items B kvs = ''['' @ join '', '' (map (repr_item B) kvs) @ '']''"

text \<open>
  \<^verbatim>\<open>sorted(kwargs.items())\<close> sorts the (name, value) tuples. The names of a dict are
  pairwise different, so the comparison of two tuples is decided by the names, in the
  lexicographic order of their characters.
\<close>

definition key_data :: "'v builtins \<Rightarrow> string \<Rightarrow> string \<Rightarrow> (string \<times> 'v) list \<Rightarrow> string" where
  "key_data B query path kwargs =
     query @ '':'' @ path @ '':'' @ repr_items B (sort_key fst kwargs)"

definition make_key :: "'v builtins \<Rightarrow> string \<Rightarrow> string \<Rightarrow> (string \<times> 'v) list \<Rightarrow> string" where
  "make_key B query path kwargs = take 16 (sha256_hexdigest B (key_data B query path kwargs))"

subsection \<open>Operations\<close>

definition SearchCache_init :: "int \<Rightarrow> int \<Rightarrow> 'r SearchCache" where
  "SearchCache_init ms ttl = \<lparr>max_size = ms, ttl_seconds = ttl, cache = []\<rparr>"

definition SearchCache_get ::
  "'v builtins \<Rightarrow> 'r SearchCache \<Rightarrow> string \<Rightarrow> string \<Rightarrow> (string \<times> 'v) list \<Rightarrow> real
     \<Rightarrow> 'r option \<times> 'r SearchCache" where
  "SearchCache_get B c query path kwargs now =
     (let key = make_key B query path kwargs in
      case map_of (cache c) key of
        None \<Rightarrow> (None, c)
      | Some entry \<Rightarrow>
          if now - created_at entry > real_of_int (ttl_seconds c)
          then (None, c\<lparr>cache := AList.delete key (cache c)\<rparr>)
          else (Some (result entry),
                c\<lparr>cache := AList.update key (entry\<lparr>hits := hits entry + 1\<rparr>) (cache c)\<rparr>))"

text \<open>
  \<^verbatim>\<open>min(iterable, key=f)\<close> walks the iterable once and replaces the element it holds
  only when the next one has a strictly smaller key.
\<close>

fun min_by :: "('a \<Rightarrow> 'b::linorder) \<Rightarrow> 'a \<Rightarrow> 'a list \<Rightarrow> 'a" where
  "min_by f best [] = best"
| "min_by f best (x # xs) = min_by f (if f x < f best then x else best) xs"

definition evict_oldest :: "'r SearchCache \<Rightarrow> 'r SearchCache" where
  "evict_oldest c =
     (case map fst (cache c) of
        [] \<Rightarrow> c
      | k # ks \<Rightarrow>
          (let oldest_key = min_by (\<lambda>k. created_at (the (map_of (cache c) k))) k ks
           in c\<lparr>cache := AList.delete oldest_key (cache c)\<rparr>))"

definition SearchCache_set ::
  "'v builtins \<Rightarrow> 'r SearchCache \<Rightarrow> string \<Rightarrow> string \<Rightarrow> 'r \<Rightarrow> (string \<times> 'v) list \<Rightarrow> real
     \<Rightarrow> 'r SearchCache" where
  "SearchCache_set B c query path res kwargs now =
     (let key = make_key B query path kwargs;
          c1 = (if int (length (cache c)) \<ge> max_size c then evict_oldest c else c)
      in c1\<lparr>cache := AList.update key \<lparr>result = res, created_at = now, hits = 0\<rparr> (cache c1)\<rparr>)"

definition SearchCache_clear :: "'r SearchCache \<Rightarrow> 'r SearchCache" where
  "SearchCache_clear c = c\<lparr>cache := []\<rparr>"

text \<open>\<^verbatim>\<open>sum(e.hits for e in values)\<close> adds from the left, starting at 0.\<close>

definition py_sum :: "int list \<Rightarrow> int" where
  "py_sum xs = foldl (+) 0 xs"

definition SearchCache_stats :: "'r SearchCache \<Rightarrow> (string \<times> int) list" where
  "SearchCache_stats c =
     (let total_hits = py_sum (map (\<lambda>e. hits e) (map snd (cache c)))
      in [(''entries'', int (length (cache c))),
          (''max_size'', max_size c),
          (''total_hits'', total_hits)])"

text \<open>A call of the public interface, and a run of calls one after the other.\<close>

datatype ('r, 'v) call =
  Get string string "(string \<times> 'v) list" real
| Set string string 'r "(string \<times> 'v) list" real
| Clear

fun step :: "'v builtins \<Rightarrow> 'r SearchCache \<Rightarrow> ('r, 'v) call \<Rightarrow> 'r SearchCache" where
  "step B c (Get q p kw now) = snd (SearchCache_get B c q p kw now)"
| "step B c (Set q p r kw now) = SearchCache_set B c q p r kw now"
| "step B c Clear = SearchCache_clear c"

definition run :: "'v builtins \<Rightarrow> 'r SearchCache \<Rightarrow> ('r, 'v) call list \<Rightarrow> 'r SearchCache" where
  "run B c calls = foldl (step B) c calls"

text \<open>
  A stand-in for the library functions, for evaluating the model on concrete calls: the
  digest is the text itself, a name is quoted, a Boolean value prints as Python prints it.
\<close>

definition demo_builtins :: "bool builtins" where
  "demo_builtins =
     \<lparr>sha256_hexdigest = (\<lambda>s. s),
      repr_str = (\<lambda>s. [CHR 0x27] @ s @ [CHR 0x27]),
      repr_value = (\<lambda>b. if b then ''True'' else ''False'')\<rparr>"

text \<open>
  Rewriting the hit counters of a dict, entry by entry, with everything else kept: used to
  state that a computation does not read them.
\<close>

definition with_hits :: "(string \<Rightarrow> 'r CacheEntry \<Rightarrow> int) \<Rightarrow> (string \<times> 'r CacheEntry) list
    \<Rightarrow> (string \<times> 'r CacheEntry) list" where
  "with_hits h d = map (\<lambda>p. (fst p, (snd p)\<lparr>hits := h (fst p) (snd p)\<rparr>)) d"

text \<open>
  A cache with two entries under the stand-in digest, the first stored at time 100 and
  the second at time 130, with a time to live of 60 seconds and room for two entries.
\<close>

definition demo_cache :: "nat SearchCache" where
  "demo_cache = \<lparr>max_size = 2, ttl_seconds = 60,
     cache = [(''q:p:[]'', \<lparr>result = 7, created_at = 100, hits = 0\<rparr>),
              (''r:p:[]'', \<lparr>result = 8, created_at = 130, hits = 4\<rparr>)]\<rparr>"

text \<open>The state invariant: the dict is well formed and holds at most \<open>max_size\<close> entries.\<close>

definition bounded :: "'r SearchCache \<Rightarrow> bool" where
  "bounded c \<longleftrightarrow> wf_dict (cache c) \<and> int (length (cache c)) \<le> max_size c"

text \<open>
  A run of calls on a cache of capacity two: it fills the cache, reads, inserts at
  capacity, overwrites, reads after expiry, clears and inserts again.
\<close>

definition demo_calls :: "(nat, bool) call list" where
  "demo_calls =
     [Set ''a'' ''p'' 1 [] 1,
      Set ''b'' ''p'' 2 [] 2,
      Get ''a'' ''p'' [] 3,
      Set ''c'' ''p'' 3 [] 4,
      Set ''b'' ''p'' 4 [] 5,
      Get ''c'' ''p'' [] 100,
      Clear,
      Set ''d'' ''p'' 5 [(''fuzzy'', True)] 101]"

section \<open>Auxiliary facts\<close>

subsection \<open>The minimum as Python computes it\<close>

lemma min_by_in: "min_by f b xs \<in> set (b # xs)"
proof (induction xs arbitrary: b)
  case Nil
  show ?case by simp
next
  case (Cons y ys)
  have "min_by f (if f y < f b then y else b) ys \<in> set ((if f y < f b then y else b) # ys)"
    by (rule Cons.IH)
  then show ?case by (cases "f y < f b") auto
qed

lemma min_by_le: "x \<in> set (b # xs) \<Longrightarrow> f (min_by f b xs) \<le> f x"
proof (induction xs arbitrary: b x)
  case Nil
  then show ?case by simp
next
  case (Cons y ys)
  define b' where "b' = (if f y < f b then y else b)"
  have step: "min_by f b (y # ys) = min_by f b' ys" by (simp add: b'_def)
  have best: "f (min_by f b' ys) \<le> f b'" by (rule Cons.IH) simp
  have b1: "f b' \<le> f b" and b2: "f b' \<le> f y" by (auto simp: b'_def)
  from Cons.prems have "x = b \<or> x = y \<or> x \<in> set ys" by auto
  then show ?case
  proof (elim disjE)
    assume "x = b"
    then show ?thesis using best b1 step by (simp only: order_trans)
  next
    assume "x = y"
    then show ?thesis using best b2 step by (simp only: order_trans)
  next
    assume "x \<in> set ys"
    then have "f (min_by f b' ys) \<le> f x" by (intro Cons.IH) simp
    then show ?thesis by (simp only: step)
  qed
qed

lemma min_by_cong: "(\<And>x. x \<in> set (b # xs) \<Longrightarrow> f x = g x) \<Longrightarrow> min_by f b xs = min_by g b xs"
proof (induction xs arbitrary: b)
  case Nil
  show ?case by simp
next
  case (Cons y ys)
  have fb: "f b = g b" and fy: "f y = g y" by (simp_all add: Cons.prems)
  define b' where "b' = (if g y < g b then y else b)"
  have "min_by f b' ys = min_by g b' ys"
  proof (rule Cons.IH)
    fix x assume "x \<in> set (b' # ys)"
    then have "x \<in> set (b # y # ys)" by (auto simp: b'_def split: if_splits)
    then show "f x = g x" by (rule Cons.prems)
  qed
  then show ?case by (simp add: fb fy b'_def)
qed

subsection \<open>Dict operations on association lists\<close>

lemma key_in_dom: "map_of d k = Some e \<Longrightarrow> k \<in> fst ` set d"
proof -
  assume "map_of d k = Some e"
  then have "(k, e) \<in> set d" by (rule map_of_SomeD)
  then have "fst (k, e) \<in> fst ` set d" by (rule imageI)
  then show ?thesis by simp
qed

lemma dom_has_entry: "k \<in> fst ` set d \<Longrightarrow> \<exists>e. map_of d k = Some e"
proof -
  assume "k \<in> fst ` set d"
  then have "map_of d k \<noteq> None" by (simp add: map_of_eq_None_iff)
  then show ?thesis by blast
qed

lemma length_delete_wf:
  "distinct (map fst al) \<Longrightarrow> k \<in> fst ` set al \<Longrightarrow> Suc (length (AList.delete k al)) = length al"
proof (induction al)
  case Nil
  then show ?case by simp
next
  case (Cons p ps)
  show ?case
  proof (cases "fst p = k")
    case True
    then have "k \<notin> fst ` set ps" using Cons.prems(1) by auto
    then have "AList.delete k ps = ps" by (rule AList.delete_id)
    then show ?thesis using True by simp
  next
    case False
    then have "k \<in> fst ` set ps" using Cons.prems(2) by auto
    moreover have "distinct (map fst ps)" using Cons.prems(1) by simp
    ultimately have "Suc (length (AList.delete k ps)) = length ps" by (rule Cons.IH[rotated])
    then show ?thesis using False by simp
  qed
qed

lemma length_delete_less:
  "k \<in> fst ` set al \<Longrightarrow> length (AList.delete k al) < length al"
proof (induction al)
  case Nil
  then show ?case by simp
next
  case (Cons p ps)
  show ?case
  proof (cases "fst p = k")
    case True
    have "length (AList.delete k ps) \<le> length ps" by (rule AList.length_delete_le)
    then show ?thesis using True by simp
  next
    case False
    then have "k \<in> fst ` set ps" using Cons.prems by auto
    then have "length (AList.delete k ps) < length ps" by (rule Cons.IH)
    then show ?thesis using False by simp
  qed
qed

lemma length_update_present:
  "k \<in> fst ` set al \<Longrightarrow> length (AList.update k v al) = length al"
  by (induction al) auto

lemma length_update_absent:
  "k \<notin> fst ` set al \<Longrightarrow> length (AList.update k v al) = Suc (length al)"
  by (induction al) auto

lemma length_update_le: "length (AList.update k v al) \<le> Suc (length al)"
  by (induction al) auto

lemma map_of_update_same: "map_of (AList.update k v al) k = Some v"
  by (simp add: AList.update_conv')

lemma map_of_update_other: "k' \<noteq> k \<Longrightarrow> map_of (AList.update k v al) k' = map_of al k'"
  by (simp add: AList.update_conv')

lemma map_of_delete_same: "map_of (AList.delete k al) k = None"
  by (simp add: AList.delete_conv')

subsection \<open>Eviction\<close>

lemma evict_oldest_empty: "cache c = [] \<Longrightarrow> evict_oldest c = c"
  by (simp add: evict_oldest_def)

lemma evict_oldest_key:
  assumes ks: "map fst (cache c) = k0 # ks"
  shows "evict_oldest c =
    c\<lparr>cache := AList.delete (min_by (\<lambda>k. created_at (the (map_of (cache c) k))) k0 ks) (cache c)\<rparr>"
  using ks by (simp add: evict_oldest_def)

lemma evict_oldest_nonempty:
  assumes "cache c \<noteq> []"
  shows "\<exists>k e. map_of (cache c) k = Some e
           \<and> (\<forall>k' e'. map_of (cache c) k' = Some e' \<longrightarrow> created_at e \<le> created_at e')
           \<and> evict_oldest c = c\<lparr>cache := AList.delete k (cache c)\<rparr>
           \<and> (\<forall>h. evict_oldest (c\<lparr>cache := with_hits h (cache c)\<rparr>)
                 = c\<lparr>cache := with_hits h (AList.delete k (cache c))\<rparr>)"
proof -
  obtain k0 ks where ks: "map fst (cache c) = k0 # ks"
    using assms by (cases "cache c") auto
  define f where "f = (\<lambda>k. created_at (the (map_of (cache c) k)))"
  define k where "k = min_by f k0 ks"
  have "k \<in> set (k0 # ks)" unfolding k_def by (rule min_by_in)
  then have "k \<in> set (map fst (cache c))" by (simp only: ks)
  then have kin: "k \<in> fst ` set (cache c)" by simp
  from dom_has_entry[OF kin] obtain e where e: "map_of (cache c) k = Some e" ..
  have least: "created_at e \<le> created_at e'" if "map_of (cache c) k' = Some e'" for k' e'
  proof -
    have "k' \<in> fst ` set (cache c)" using that by (rule key_in_dom)
    then have "k' \<in> set (map fst (cache c))" by simp
    then have "k' \<in> set (k0 # ks)" by (simp only: ks)
    then have "f k \<le> f k'" unfolding k_def by (rule min_by_le)
    then show ?thesis using e that by (simp add: f_def)
  qed
  have ev: "evict_oldest c = c\<lparr>cache := AList.delete k (cache c)\<rparr>"
    unfolding k_def f_def using ks by (rule evict_oldest_key)
  have hits_free: "evict_oldest (c\<lparr>cache := with_hits h (cache c)\<rparr>)
                 = c\<lparr>cache := with_hits h (AList.delete k (cache c))\<rparr>" for h
  proof -
    define c' where "c' = c\<lparr>cache := with_hits h (cache c)\<rparr>"
    have keys: "map fst (cache c') = k0 # ks"
      using ks by (simp add: c'_def with_hits_def comp_def)
    define g where "g = (\<lambda>k. created_at (the (map_of (cache c') k)))"
    have look: "map_of (with_hits h d) x = map_option (\<lambda>e. e\<lparr>hits := h x e\<rparr>) (map_of d x)"
      for d :: "(string \<times> 'a CacheEntry) list" and x
      by (induction d) (auto simp: with_hits_def)
    have same: "g x = f x" if "x \<in> set (k0 # ks)" for x
    proof -
      have "x \<in> set (map fst (cache c))" using that by (simp only: ks)
      then have xin: "x \<in> fst ` set (cache c)" by simp
      from dom_has_entry[OF xin] obtain ex where "map_of (cache c) x = Some ex" ..
      then show ?thesis by (simp add: g_def f_def c'_def look)
    qed
    have "min_by g k0 ks = min_by f k0 ks" by (rule min_by_cong) (rule same)
    then have k': "min_by g k0 ks = k" by (simp add: k_def)
    have "evict_oldest c' = c'\<lparr>cache := AList.delete (min_by g k0 ks) (cache c')\<rparr>"
      unfolding g_def using keys by (rule evict_oldest_key)
    then have "evict_oldest c' = c'\<lparr>cache := AList.delete k (cache c')\<rparr>"
      by (simp only: k')
    moreover have "AList.delete k (with_hits h d) = with_hits h (AList.delete k d)"
      for d :: "(string \<times> 'a CacheEntry) list"
      by (induction d) (auto simp: with_hits_def)
    ultimately show ?thesis by (simp add: c'_def)
  qed
  show ?thesis
  proof (intro exI conjI allI impI)
    show "map_of (cache c) k = Some e" by (rule e)
    show "created_at e \<le> created_at e'" if "map_of (cache c) k' = Some e'" for k' e'
      using that by (rule least)
    show "evict_oldest c = c\<lparr>cache := AList.delete k (cache c)\<rparr>" by (rule ev)
    show "evict_oldest (c\<lparr>cache := with_hits h (cache c)\<rparr>)
                 = c\<lparr>cache := with_hits h (AList.delete k (cache c))\<rparr>" for h
      by (rule hits_free)
  qed
qed

section \<open>Key derivation\<close>

lemma items_from_lookup:
  assumes d: "distinct (map fst zs)"
  shows "map (\<lambda>k. (k, the (map_of zs k))) (map fst zs) = zs"
proof -
  have "map (\<lambda>p. (fst p, the (map_of zs (fst p)))) zs = zs"
  proof (rule map_idI)
    fix p assume "p \<in> set zs"
    then have "map_of zs (fst p) = Some (snd p)" using d by simp
    then show "(fst p, the (map_of zs (fst p))) = p" by simp
  qed
  then show ?thesis by (simp add: comp_def)
qed

lemma sorted_items_unique:
  assumes dx: "distinct (map fst xs)" and dy: "distinct (map fst ys)" and s: "set xs = set ys"
  shows "sort_key fst xs = sort_key fst ys"
proof -
  have sdx: "distinct (map fst (sort_key fst xs))" using dx by (simp add: distinct_map)
  have sdy: "distinct (map fst (sort_key fst ys))" using dy by (simp add: distinct_map)
  have k: "map fst (sort_key fst xs) = map fst (sort_key fst ys)"
  proof (rule sorted_distinct_set_unique)
    show "sorted (map fst (sort_key fst xs))" by simp
    show "sorted (map fst (sort_key fst ys))" by simp
    show "distinct (map fst (sort_key fst xs))" by (rule sdx)
    show "distinct (map fst (sort_key fst ys))" by (rule sdy)
    show "set (map fst (sort_key fst xs)) = set (map fst (sort_key fst ys))"
      using s by simp
  qed
  have "set (sort_key fst xs) = set (sort_key fst ys)" using s by simp
  then have m: "map_of (sort_key fst xs) = map_of (sort_key fst ys)"
    using sdx sdy by (simp add: map_of_inject_set)
  have "sort_key fst xs = map (\<lambda>k. (k, the (map_of (sort_key fst xs) k))) (map fst (sort_key fst xs))"
    using items_from_lookup[OF sdx] by simp
  also have "\<dots> = map (\<lambda>k. (k, the (map_of (sort_key fst ys) k))) (map fst (sort_key fst ys))"
    by (simp only: k m)
  also have "\<dots> = sort_key fst ys" by (rule items_from_lookup[OF sdy])
  finally show ?thesis .
qed

text \<open>
  Claim C6. The fingerprint is a function of \<open>(query, path, extra_params)\<close>, so repeated
  calls give the same key, and it does not depend on the order in which the extra
  parameters were given: two keyword dicts holding the same name-value pairs, in any
  insertion order, give the same fingerprint. This holds for every hash function and
  every \<^verbatim>\<open>repr\<close>.
\<close>

theorem make_key_order_independent:
  assumes "wf_dict kw1" and "wf_dict kw2" and "set kw1 = set kw2"
  shows "make_key B query path kw1 = make_key B query path kw2"
proof -
  have "sort_key fst kw1 = sort_key fst kw2"
    using assms unfolding wf_dict_def by (rule sorted_items_unique)
  then show ?thesis by (simp only: make_key_def key_data_def)
qed

theorem make_key_order_independent_witness:
  "wf_dict [(''fuzzy'', True), (''recursive'', False)]
   \<and> wf_dict [(''recursive'', False), (''fuzzy'', True)]
   \<and> set [(''fuzzy'', True), (''recursive'', False)] = set [(''recursive'', False), (''fuzzy'', True)]
   \<and> make_key demo_builtins ''movement'' ''docs'' [(''fuzzy'', True), (''recursive'', False)]
     = make_key demo_builtins ''movement'' ''docs'' [(''recursive'', False), (''fuzzy'', True)]"
proof -
  have h1: "wf_dict [(''fuzzy'', True), (''recursive'', False)]" by (simp add: wf_dict_def)
  have h2: "wf_dict [(''recursive'', False), (''fuzzy'', True)]" by (simp add: wf_dict_def)
  have h3: "set [(''fuzzy'', True), (''recursive'', False)] = set [(''recursive'', False), (''fuzzy'', True)]"
    by (simp add: insert_commute)
  show ?thesis
    using h1 h2 h3 make_key_order_independent[OF h1 h2 h3, of demo_builtins "''movement''" "''docs''"]
    by (simp only: simp_thms)
qed

lemma key_data_no_kwargs: "key_data B query path [] = query @ '':'' @ path @ '':[]''"
  by (simp add: key_data_def repr_items_def)

text \<open>
  With the other fields fixed, a different query or a different path gives a different
  key string, so for such a pair only a collision of the hash can make the fingerprints
  equal.
\<close>

lemma key_data_query_sensitive:
  "query \<noteq> query' \<Longrightarrow> key_data B query path kwargs \<noteq> key_data B query' path kwargs"
  by (simp add: key_data_def)

lemma key_data_path_sensitive:
  "path \<noteq> path' \<Longrightarrow> key_data B query path kwargs \<noteq> key_data B query path' kwargs"
  by (simp add: key_data_def)

text \<open>
  Claim C2. The claim says that two inputs differing in some field get different
  fingerprints, hash collisions apart. The key string joins query and path with a colon
  and escapes neither, so the two different inputs \<open>(query ''a:b'', path ''c'')\<close> and
  \<open>(query ''a'', path ''b:c'')\<close> give the same key string \<open>''a:b:c:[]''\<close>; they get the same
  fingerprint under every hash function, and a result stored for the first is returned
  for the second.
\<close>

theorem make_key_separator_collision:
  "(''a:b'', ''c'') \<noteq> (''a'', ''b:c'')
   \<and> key_data B ''a:b'' ''c'' [] = key_data B ''a'' ''b:c'' []
   \<and> make_key B ''a:b'' ''c'' [] = make_key B ''a'' ''b:c'' []
   \<and> fst (SearchCache_get B
             (SearchCache_set B (SearchCache_init 10 60) ''a:b'' ''c'' r [] 0)
             ''a'' ''b:c'' [] 1) = Some r"
proof -
  have kd: "key_data B ''a:b'' ''c'' [] = key_data B ''a'' ''b:c'' []"
    by (simp add: key_data_no_kwargs)
  then have mk: "make_key B ''a:b'' ''c'' [] = make_key B ''a'' ''b:c'' []"
    by (simp only: make_key_def)
  have "fst (SearchCache_get B
             (SearchCache_set B (SearchCache_init 10 60) ''a:b'' ''c'' r [] 0)
             ''a'' ''b:c'' [] 1) = Some r"
    by (simp add: SearchCache_get_def SearchCache_set_def SearchCache_init_def mk Let_def)
  then show ?thesis using kd mk by simp
qed

section \<open>Lookup\<close>

lemma get_miss:
  "map_of (cache c) (make_key B query path kwargs) = None
   \<Longrightarrow> SearchCache_get B c query path kwargs now = (None, c)"
  by (simp add: SearchCache_get_def Let_def)

lemma get_expired:
  "map_of (cache c) (make_key B query path kwargs) = Some e
   \<Longrightarrow> now - created_at e > real_of_int (ttl_seconds c)
   \<Longrightarrow> SearchCache_get B c query path kwargs now
       = (None, c\<lparr>cache := AList.delete (make_key B query path kwargs) (cache c)\<rparr>)"
  by (simp add: SearchCache_get_def Let_def)

lemma get_fresh:
  "map_of (cache c) (make_key B query path kwargs) = Some e
   \<Longrightarrow> \<not> now - created_at e > real_of_int (ttl_seconds c)
   \<Longrightarrow> SearchCache_get B c query path kwargs now
       = (Some (result e),
          c\<lparr>cache := AList.update (make_key B query path kwargs) (e\<lparr>hits := hits e + 1\<rparr>) (cache c)\<rparr>)"
  by (simp add: SearchCache_get_def Let_def)

lemma demo_key: "make_key demo_builtins q p [] = take 16 (q @ '':'' @ p @ '':[]'')"
  by (simp add: make_key_def key_data_no_kwargs demo_builtins_def)

text \<open>
  Claim C3. For every cache state and key, \<^verbatim>\<open>get\<close> does one of three things. If the
  fingerprint is absent it returns no result and the cache is unchanged. If it is present
  and \<open>now - created_at > ttl_seconds\<close> it removes that entry and returns no result. If
  it is present and fresh it returns the stored result and the entry's \<open>hits\<close> grows by
  exactly one, its result and creation time staying as they were.
\<close>

theorem get_three_cases:
  assumes key: "key = make_key B query path kwargs"
      and out: "out = SearchCache_get B c query path kwargs now"
  shows "(map_of (cache c) key = None \<longrightarrow> out = (None, c))
       \<and> (\<forall>e. map_of (cache c) key = Some e \<and> now - created_at e > real_of_int (ttl_seconds c) \<longrightarrow>
             fst out = None
             \<and> snd out = c\<lparr>cache := AList.delete key (cache c)\<rparr>
             \<and> map_of (cache (snd out)) key = None)
       \<and> (\<forall>e. map_of (cache c) key = Some e \<and> \<not> now - created_at e > real_of_int (ttl_seconds c) \<longrightarrow>
             fst out = Some (result e)
             \<and> snd out = c\<lparr>cache := AList.update key (e\<lparr>hits := hits e + 1\<rparr>) (cache c)\<rparr>
             \<and> map_of (cache (snd out)) key = Some (e\<lparr>hits := hits e + 1\<rparr>)
             \<and> length (cache (snd out)) = length (cache c))"
proof (intro conjI allI impI)
  assume "map_of (cache c) key = None"
  then show "out = (None, c)" unfolding key out by (rule get_miss)
next
  fix e assume a: "map_of (cache c) key = Some e \<and> now - created_at e > real_of_int (ttl_seconds c)"
  have eq: "out = (None, c\<lparr>cache := AList.delete key (cache c)\<rparr>)"
    using get_expired[of c B query path kwargs e now] a by (simp add: key out)
  show "fst out = None" by (simp add: eq)
  show "snd out = c\<lparr>cache := AList.delete key (cache c)\<rparr>" by (simp add: eq)
  show "map_of (cache (snd out)) key = None" by (simp add: eq map_of_delete_same)
next
  fix e assume a: "map_of (cache c) key = Some e \<and> \<not> now - created_at e > real_of_int (ttl_seconds c)"
  have eq: "out = (Some (result e), c\<lparr>cache := AList.update key (e\<lparr>hits := hits e + 1\<rparr>) (cache c)\<rparr>)"
    using get_fresh[of c B query path kwargs e now] a by (simp add: key out)
  show "fst out = Some (result e)" by (simp add: eq)
  show "snd out = c\<lparr>cache := AList.update key (e\<lparr>hits := hits e + 1\<rparr>) (cache c)\<rparr>"
    by (simp add: eq)
  show "map_of (cache (snd out)) key = Some (e\<lparr>hits := hits e + 1\<rparr>)"
    by (simp add: eq map_of_update_same)
  have "key \<in> fst ` set (cache c)" using a by (intro key_in_dom[of _ _ e]) simp
  then show "length (cache (snd out)) = length (cache c)"
    by (simp add: eq length_update_present)
qed

theorem get_three_cases_witness:
  "SearchCache_get demo_builtins demo_cache ''x'' ''p'' [] 150 = (None, demo_cache)
   \<and> fst (SearchCache_get demo_builtins demo_cache ''q'' ''p'' [] 161) = None
   \<and> map_of (cache (snd (SearchCache_get demo_builtins demo_cache ''q'' ''p'' [] 161))) ''q:p:[]'' = None
   \<and> fst (SearchCache_get demo_builtins demo_cache ''q'' ''p'' [] 160) = Some 7
   \<and> map_of (cache (snd (SearchCache_get demo_builtins demo_cache ''q'' ''p'' [] 160))) ''q:p:[]''
       = Some \<lparr>result = 7, created_at = 100, hits = 1\<rparr>"
proof -
  have k1: "''x:p:[]'' = make_key demo_builtins ''x'' ''p'' []" by (simp add: demo_key)
  have k2: "''q:p:[]'' = make_key demo_builtins ''q'' ''p'' []" by (simp add: demo_key)
  have m1: "map_of (cache demo_cache) ''x:p:[]'' = None" by (simp add: demo_cache_def)
  have m2: "map_of (cache demo_cache) ''q:p:[]'' = Some \<lparr>result = 7, created_at = 100, hits = 0\<rparr>"
    by (simp add: demo_cache_def)
  have t: "ttl_seconds demo_cache = 60" by (simp add: demo_cache_def)
  note a = get_three_cases[OF k1 refl, of demo_cache 150]
  note b = get_three_cases[OF k2 refl, of demo_cache 161]
  note d = get_three_cases[OF k2 refl, of demo_cache 160]
  have "SearchCache_get demo_builtins demo_cache ''x'' ''p'' [] 150 = (None, demo_cache)"
    using a m1 by simp
  moreover have "fst (SearchCache_get demo_builtins demo_cache ''q'' ''p'' [] 161) = None
     \<and> map_of (cache (snd (SearchCache_get demo_builtins demo_cache ''q'' ''p'' [] 161))) ''q:p:[]'' = None"
    using b m2 t by (simp add: map_of_delete_same)
  moreover have "fst (SearchCache_get demo_builtins demo_cache ''q'' ''p'' [] 160) = Some 7
     \<and> map_of (cache (snd (SearchCache_get demo_builtins demo_cache ''q'' ''p'' [] 160))) ''q:p:[]''
       = Some \<lparr>result = 7, created_at = 100, hits = 1\<rparr>"
    using d m2 t by (simp add: map_of_update_same)
  ultimately show ?thesis by simp
qed

text \<open>
  Claim C9. A \<^verbatim>\<open>get\<close> touches only the entry under the looked-up fingerprint. Every
  other key maps to the same entry afterwards, whether that entry is fresh or expired;
  the entries under other keys are the same list in the same order; a \<^verbatim>\<open>get\<close> that
  removes an expired entry leaves exactly the dict without that key; a \<^verbatim>\<open>get\<close> that
  misses leaves the whole cache as it was; the bounds are never changed.
\<close>

theorem get_frame:
  assumes key: "key = make_key B query path kwargs"
      and out: "out = SearchCache_get B c query path kwargs now"
  shows "(\<forall>k'. k' \<noteq> key \<longrightarrow> map_of (cache (snd out)) k' = map_of (cache c) k')
       \<and> AList.delete key (cache (snd out)) = AList.delete key (cache c)
       \<and> (\<forall>e. map_of (cache c) key = Some e \<and> now - created_at e > real_of_int (ttl_seconds c) \<longrightarrow>
             cache (snd out) = AList.delete key (cache c))
       \<and> (map_of (cache c) key = None \<longrightarrow> snd out = c)
       \<and> max_size (snd out) = max_size c
       \<and> ttl_seconds (snd out) = ttl_seconds c"
proof (cases "map_of (cache c) key")
  case None
  then have "out = (None, c)" unfolding key out by (rule get_miss)
  then show ?thesis using None by simp
next
  case (Some e)
  show ?thesis
  proof (cases "now - created_at e > real_of_int (ttl_seconds c)")
    case True
    have "out = (None, c\<lparr>cache := AList.delete key (cache c)\<rparr>)"
      using get_expired[of c B query path kwargs e now] Some True by (simp add: key out)
    then show ?thesis using Some by (simp add: AList.delete_idem)
  next
    case False
    have "out = (Some (result e), c\<lparr>cache := AList.update key (e\<lparr>hits := hits e + 1\<rparr>) (cache c)\<rparr>)"
      using get_fresh[of c B query path kwargs e now] Some False by (simp add: key out)
    then show ?thesis using Some False
      by (simp add: AList.delete_update_same map_of_update_other)
  qed
qed

theorem get_frame_witness:
  "map_of (cache (snd (SearchCache_get demo_builtins demo_cache ''q'' ''p'' [] 161))) ''r:p:[]''
     = Some \<lparr>result = 8, created_at = 130, hits = 4\<rparr>
   \<and> cache (snd (SearchCache_get demo_builtins demo_cache ''q'' ''p'' [] 161))
     = [(''r:p:[]'', \<lparr>result = 8, created_at = 130, hits = 4\<rparr>)]
   \<and> snd (SearchCache_get demo_builtins demo_cache ''x'' ''p'' [] 161) = demo_cache"
proof -
  have k1: "''x:p:[]'' = make_key demo_builtins ''x'' ''p'' []" by (simp add: demo_key)
  have k2: "''q:p:[]'' = make_key demo_builtins ''q'' ''p'' []" by (simp add: demo_key)
  have m1: "map_of (cache demo_cache) ''x:p:[]'' = None" by (simp add: demo_cache_def)
  have m2: "map_of (cache demo_cache) ''q:p:[]'' = Some \<lparr>result = 7, created_at = 100, hits = 0\<rparr>"
    by (simp add: demo_cache_def)
  have m3: "map_of (cache demo_cache) ''r:p:[]'' = Some \<lparr>result = 8, created_at = 130, hits = 4\<rparr>"
    by (simp add: demo_cache_def)
  have d: "AList.delete ''q:p:[]'' (cache demo_cache) = [(''r:p:[]'', \<lparr>result = 8, created_at = 130, hits = 4\<rparr>)]"
    by (simp add: demo_cache_def)
  have t: "ttl_seconds demo_cache = 60" by (simp add: demo_cache_def)
  note a = get_frame[OF k1 refl, of demo_cache 161]
  note b = get_frame[OF k2 refl, of demo_cache 161]
  have "snd (SearchCache_get demo_builtins demo_cache ''x'' ''p'' [] 161) = demo_cache"
    using a m1 by simp
  moreover have "map_of (cache (snd (SearchCache_get demo_builtins demo_cache ''q'' ''p'' [] 161))) ''r:p:[]''
     = Some \<lparr>result = 8, created_at = 130, hits = 4\<rparr>"
    using b m3 by simp
  moreover have "cache (snd (SearchCache_get demo_builtins demo_cache ''q'' ''p'' [] 161))
     = [(''r:p:[]'', \<lparr>result = 8, created_at = 130, hits = 4\<rparr>)]"
    using b m2 t d by simp
  ultimately show ?thesis by simp
qed

section \<open>Insertion\<close>

lemma set_below_capacity:
  "int (length (cache c)) < max_size c
   \<Longrightarrow> SearchCache_set B c query path res kwargs now
       = c\<lparr>cache := AList.update (make_key B query path kwargs)
                       \<lparr>result = res, created_at = now, hits = 0\<rparr> (cache c)\<rparr>"
  by (simp add: SearchCache_set_def Let_def)

lemma set_at_capacity:
  "max_size c \<le> int (length (cache c))
   \<Longrightarrow> SearchCache_set B c query path res kwargs now
       = (evict_oldest c)\<lparr>cache := AList.update (make_key B query path kwargs)
                       \<lparr>result = res, created_at = now, hits = 0\<rparr> (cache (evict_oldest c))\<rparr>"
  by (simp add: SearchCache_set_def Let_def)

lemma set_stores_entry:
  "map_of (cache (SearchCache_set B c query path res kwargs now)) (make_key B query path kwargs)
     = Some \<lparr>result = res, created_at = now, hits = 0\<rparr>"
  by (simp add: SearchCache_set_def Let_def map_of_update_same)

lemma demo_evict:
  "evict_oldest demo_cache = demo_cache\<lparr>cache := [(''r:p:[]'', \<lparr>result = 8, created_at = 130, hits = 4\<rparr>)]\<rparr>"
  by (simp add: evict_oldest_def demo_cache_def)

text \<open>
  Claim C1, as the spec states it: a \<^verbatim>\<open>set\<close> on a fingerprint that is already present
  evicts no other entry and does not run the capacity check, even when the cache is
  full. The code runs the capacity check before it looks at the key: in a full cache of
  two entries, storing again under the newer fingerprint evicts the older entry, which
  was stored under a different fingerprint, and one entry is left.
\<close>

theorem set_overwrite_evicts_counterexample:
  "map_of (cache demo_cache) (make_key demo_builtins ''r'' ''p'' []) \<noteq> None
   \<and> int (length (cache demo_cache)) = max_size demo_cache
   \<and> ''q:p:[]'' \<noteq> make_key demo_builtins ''r'' ''p'' []
   \<and> map_of (cache demo_cache) ''q:p:[]'' = Some \<lparr>result = 7, created_at = 100, hits = 0\<rparr>
   \<and> map_of (cache (SearchCache_set demo_builtins demo_cache ''r'' ''p'' 9 [] 150)) ''q:p:[]'' = None
   \<and> length (cache (SearchCache_set demo_builtins demo_cache ''r'' ''p'' 9 [] 150)) = 1"
proof -
  have k: "make_key demo_builtins ''r'' ''p'' [] = ''r:p:[]''" by (simp add: demo_key)
  have l: "max_size demo_cache \<le> int (length (cache demo_cache))" by (simp add: demo_cache_def)
  have s: "cache (SearchCache_set demo_builtins demo_cache ''r'' ''p'' 9 [] 150)
         = [(''r:p:[]'', \<lparr>result = 9, created_at = 150, hits = 0\<rparr>)]"
    by (simp add: set_at_capacity[OF l] demo_evict k)
  show ?thesis by (simp add: s k) (simp add: demo_cache_def)
qed

text \<open>
  Claim C1, amended. For every cache state and every key whose fingerprint is already
  present, \<^verbatim>\<open>set\<close> leaves the fingerprint mapped to a new entry with
  \<open>created_at = now\<close> and \<open>hits = 0\<close>. While the cardinality is below \<open>max_size\<close> the
  entry is replaced in place, no other entry is evicted or changed and the cardinality
  stays the same. When the cardinality has reached \<open>max_size\<close> the capacity check runs as
  for any other \<^verbatim>\<open>set\<close>: the new entry is stored into the dict that eviction leaves.
\<close>

theorem set_overwrite:
  assumes key: "key = make_key B query path kwargs"
      and c': "c' = SearchCache_set B c query path res kwargs now"
      and present: "map_of (cache c) key = Some old"
  shows "map_of (cache c') key = Some \<lparr>result = res, created_at = now, hits = 0\<rparr>
       \<and> (int (length (cache c)) < max_size c \<longrightarrow>
            cache c' = AList.update key \<lparr>result = res, created_at = now, hits = 0\<rparr> (cache c)
            \<and> length (cache c') = length (cache c)
            \<and> (\<forall>k'. k' \<noteq> key \<longrightarrow> map_of (cache c') k' = map_of (cache c) k'))
       \<and> (max_size c \<le> int (length (cache c)) \<longrightarrow>
            cache c' = AList.update key \<lparr>result = res, created_at = now, hits = 0\<rparr>
                         (cache (evict_oldest c)))"
proof (intro conjI impI allI)
  show "map_of (cache c') key = Some \<lparr>result = res, created_at = now, hits = 0\<rparr>"
    unfolding key c' by (rule set_stores_entry)
next
  assume low: "int (length (cache c)) < max_size c"
  have eq: "c' = c\<lparr>cache := AList.update key \<lparr>result = res, created_at = now, hits = 0\<rparr> (cache c)\<rparr>"
    unfolding key c' using low by (rule set_below_capacity)
  show "cache c' = AList.update key \<lparr>result = res, created_at = now, hits = 0\<rparr> (cache c)"
    by (simp add: eq)
  have "key \<in> fst ` set (cache c)" using present by (rule key_in_dom)
  then show "length (cache c') = length (cache c)" by (simp add: eq length_update_present)
  show "map_of (cache c') k' = map_of (cache c) k'" if "k' \<noteq> key" for k'
    using that by (simp add: eq map_of_update_other)
next
  assume "max_size c \<le> int (length (cache c))"
  then have "c' = (evict_oldest c)\<lparr>cache := AList.update key
                       \<lparr>result = res, created_at = now, hits = 0\<rparr> (cache (evict_oldest c))\<rparr>"
    unfolding key c' by (rule set_at_capacity)
  then show "cache c' = AList.update key \<lparr>result = res, created_at = now, hits = 0\<rparr>
                         (cache (evict_oldest c))"
    by simp
qed

theorem set_overwrite_witness:
  "map_of (cache (SearchCache_set demo_builtins (demo_cache\<lparr>max_size := 3\<rparr>) ''r'' ''p'' 9 [] 150)) ''r:p:[]''
     = Some \<lparr>result = 9, created_at = 150, hits = 0\<rparr>
   \<and> map_of (cache (SearchCache_set demo_builtins (demo_cache\<lparr>max_size := 3\<rparr>) ''r'' ''p'' 9 [] 150)) ''q:p:[]''
     = Some \<lparr>result = 7, created_at = 100, hits = 0\<rparr>
   \<and> length (cache (SearchCache_set demo_builtins (demo_cache\<lparr>max_size := 3\<rparr>) ''r'' ''p'' 9 [] 150)) = 2
   \<and> cache (SearchCache_set demo_builtins demo_cache ''r'' ''p'' 9 [] 150)
     = [(''r:p:[]'', \<lparr>result = 9, created_at = 150, hits = 0\<rparr>)]"
proof -
  have k: "''r:p:[]'' = make_key demo_builtins ''r'' ''p'' []" by (simp add: demo_key)
  have m: "map_of (cache (demo_cache\<lparr>max_size := 3\<rparr>)) ''r:p:[]'' = Some \<lparr>result = 8, created_at = 130, hits = 4\<rparr>"
    by (simp add: demo_cache_def)
  have m': "map_of (cache demo_cache) ''r:p:[]'' = Some \<lparr>result = 8, created_at = 130, hits = 4\<rparr>"
    by (simp add: demo_cache_def)
  have mq: "map_of (cache demo_cache) ''q:p:[]'' = Some \<lparr>result = 7, created_at = 100, hits = 0\<rparr>"
    by (simp add: demo_cache_def)
  have l: "length (cache demo_cache) = 2" "max_size demo_cache = 2" by (simp_all add: demo_cache_def)
  note a = set_overwrite[OF k refl m, of 9 150]
  note b = set_overwrite[OF k refl m', of 9 150]
  have "map_of (cache (SearchCache_set demo_builtins (demo_cache\<lparr>max_size := 3\<rparr>) ''r'' ''p'' 9 [] 150)) ''r:p:[]''
     = Some \<lparr>result = 9, created_at = 150, hits = 0\<rparr>"
    using a by simp
  moreover have "map_of (cache (SearchCache_set demo_builtins (demo_cache\<lparr>max_size := 3\<rparr>) ''r'' ''p'' 9 [] 150)) ''q:p:[]''
     = Some \<lparr>result = 7, created_at = 100, hits = 0\<rparr>"
    using a by (simp add: demo_cache_def)
  moreover have "length (cache (SearchCache_set demo_builtins (demo_cache\<lparr>max_size := 3\<rparr>) ''r'' ''p'' 9 [] 150)) = 2"
    using a by (simp add: demo_cache_def)
  moreover have "cache (SearchCache_set demo_builtins demo_cache ''r'' ''p'' 9 [] 150)
     = [(''r:p:[]'', \<lparr>result = 9, created_at = 150, hits = 0\<rparr>)]"
    using b l by (simp add: demo_evict)
  ultimately show ?thesis by simp
qed

section \<open>Eviction at capacity\<close>

lemma full_nonempty:
  "0 < max_size c \<Longrightarrow> max_size c \<le> int (length (cache c)) \<Longrightarrow> cache c \<noteq> []"
  by auto

text \<open>
  Claim C4, as the spec states it: every \<^verbatim>\<open>set\<close> on a cache whose cardinality has reached
  \<open>max_size\<close> evicts exactly one entry first. The eviction returns at once on an empty
  dict. A cache constructed with \<open>max_size = 0\<close> is empty, so its cardinality has reached
  \<open>max_size\<close>, and the first \<^verbatim>\<open>set\<close> evicts nothing: the eviction gives back the same
  state, of the same length, and the entry is stored into the empty dict.
\<close>

theorem set_at_capacity_evicts_nothing_counterexample:
  "max_size (SearchCache_init 0 300 :: nat SearchCache)
     \<le> int (length (cache (SearchCache_init 0 300 :: nat SearchCache)))
   \<and> evict_oldest (SearchCache_init 0 300 :: nat SearchCache) = SearchCache_init 0 300
   \<and> length (cache (evict_oldest (SearchCache_init 0 300 :: nat SearchCache)))
       = length (cache (SearchCache_init 0 300 :: nat SearchCache))
   \<and> cache (SearchCache_set demo_builtins (SearchCache_init 0 300) ''q'' ''p'' (7::nat) [] 1)
       = [(''q:p:[]'', \<lparr>result = 7, created_at = 1, hits = 0\<rparr>)]"
proof -
  have e: "cache (SearchCache_init 0 300 :: nat SearchCache) = []"
    by (simp add: SearchCache_init_def)
  have full: "max_size (SearchCache_init 0 300 :: nat SearchCache)
     \<le> int (length (cache (SearchCache_init 0 300 :: nat SearchCache)))"
    by (simp add: SearchCache_init_def)
  have ev: "evict_oldest (SearchCache_init 0 300 :: nat SearchCache) = SearchCache_init 0 300"
    using e by (rule evict_oldest_empty)
  have k: "make_key demo_builtins ''q'' ''p'' [] = ''q:p:[]''" by (simp add: demo_key)
  have s: "cache (SearchCache_set demo_builtins (SearchCache_init 0 300) ''q'' ''p'' (7::nat) [] 1)
       = [(''q:p:[]'', \<lparr>result = 7, created_at = 1, hits = 0\<rparr>)]"
    by (simp add: set_at_capacity[OF full] ev e k)
  show ?thesis by (intro conjI full ev s) (simp only: ev)
qed

text \<open>
  Claim C4, amended. For every \<^verbatim>\<open>set\<close> on a cache whose map is not empty and whose
  cardinality has reached \<open>max_size\<close>, exactly one entry is evicted before the new entry
  is stored: there is a stored key whose entry has the smallest \<open>created_at\<close> of all
  stored entries, eviction deletes that key and nothing else, so the dict is one shorter
  and every other key keeps its entry, and \<^verbatim>\<open>set\<close> then stores into the dict that is
  left. The hit counters do not influence the choice: the same key is evicted after any
  rewriting of the hit counters of the stored entries. A map that has reached a positive
  \<open>max_size\<close> is not empty; the statement also covers a non-empty map with a
  \<open>max_size\<close> of zero or below.
\<close>

theorem set_evicts_oldest_at_capacity:
  assumes wf: "wf_dict (cache c)"
      and ne: "cache c \<noteq> []"
      and full: "max_size c \<le> int (length (cache c))"
  shows "\<exists>k e. map_of (cache c) k = Some e
           \<and> (\<forall>k' e'. map_of (cache c) k' = Some e' \<longrightarrow> created_at e \<le> created_at e')
           \<and> evict_oldest c = c\<lparr>cache := AList.delete k (cache c)\<rparr>
           \<and> Suc (length (cache (evict_oldest c))) = length (cache c)
           \<and> (\<forall>k'. k' \<noteq> k \<longrightarrow> map_of (cache (evict_oldest c)) k' = map_of (cache c) k')
           \<and> SearchCache_set B c query path res kwargs now
               = (evict_oldest c)\<lparr>cache := AList.update (make_key B query path kwargs)
                     \<lparr>result = res, created_at = now, hits = 0\<rparr> (cache (evict_oldest c))\<rparr>
           \<and> (\<forall>h. evict_oldest (c\<lparr>cache := with_hits h (cache c)\<rparr>)
                 = c\<lparr>cache := with_hits h (AList.delete k (cache c))\<rparr>)"
proof -
  from evict_oldest_nonempty[OF ne] obtain k e where
    e: "map_of (cache c) k = Some e" and
    least: "\<forall>k' e'. map_of (cache c) k' = Some e' \<longrightarrow> created_at e \<le> created_at e'" and
    ev: "evict_oldest c = c\<lparr>cache := AList.delete k (cache c)\<rparr>" and
    hf: "\<forall>h. evict_oldest (c\<lparr>cache := with_hits h (cache c)\<rparr>)
                 = c\<lparr>cache := with_hits h (AList.delete k (cache c))\<rparr>"
    by (elim exE conjE)
  have kin: "k \<in> fst ` set (cache c)" using e by (rule key_in_dom)
  have d: "distinct (map fst (cache c))" using wf by (simp add: wf_dict_def)
  have len: "Suc (length (cache (evict_oldest c))) = length (cache c)"
    using length_delete_wf[OF d kin] by (simp add: ev)
  have others: "\<forall>k'. k' \<noteq> k \<longrightarrow> map_of (cache (evict_oldest c)) k' = map_of (cache c) k'"
    by (simp add: ev)
  have st: "SearchCache_set B c query path res kwargs now
               = (evict_oldest c)\<lparr>cache := AList.update (make_key B query path kwargs)
                     \<lparr>result = res, created_at = now, hits = 0\<rparr> (cache (evict_oldest c))\<rparr>"
    using full by (rule set_at_capacity)
  show ?thesis
    by (rule exI[of _ k], rule exI[of _ e]) (intro conjI e least ev len others st hf)
qed

theorem set_evicts_oldest_at_capacity_witness:
  "wf_dict (cache demo_cache) \<and> cache demo_cache \<noteq> []
   \<and> max_size demo_cache \<le> int (length (cache demo_cache))
   \<and> (\<exists>k e. map_of (cache demo_cache) k = Some e
           \<and> (\<forall>k' e'. map_of (cache demo_cache) k' = Some e' \<longrightarrow> created_at e \<le> created_at e')
           \<and> evict_oldest demo_cache = demo_cache\<lparr>cache := AList.delete k (cache demo_cache)\<rparr>
           \<and> Suc (length (cache (evict_oldest demo_cache))) = length (cache demo_cache)
           \<and> (\<forall>k'. k' \<noteq> k \<longrightarrow> map_of (cache (evict_oldest demo_cache)) k' = map_of (cache demo_cache) k')
           \<and> SearchCache_set demo_builtins demo_cache ''s'' ''p'' 9 [] 150
               = (evict_oldest demo_cache)\<lparr>cache := AList.update (make_key demo_builtins ''s'' ''p'' [])
                     \<lparr>result = 9, created_at = 150, hits = 0\<rparr> (cache (evict_oldest demo_cache))\<rparr>
           \<and> (\<forall>h. evict_oldest (demo_cache\<lparr>cache := with_hits h (cache demo_cache)\<rparr>)
                 = demo_cache\<lparr>cache := with_hits h (AList.delete k (cache demo_cache))\<rparr>))"
proof -
  have h1: "wf_dict (cache demo_cache)" by (simp add: wf_dict_def demo_cache_def)
  have h2: "cache demo_cache \<noteq> []" by (simp add: demo_cache_def)
  have h3: "max_size demo_cache \<le> int (length (cache demo_cache))" by (simp add: demo_cache_def)
  show ?thesis
    by (intro conjI h1 h2 h3
          set_evicts_oldest_at_capacity[OF h1 h2 h3, of demo_builtins "''s''" "''p''" 9 "[]" 150])
qed

section \<open>The capacity bound\<close>

lemma evict_oldest_shrinks:
  assumes ne: "cache c \<noteq> []"
  shows "length (cache (evict_oldest c)) < length (cache c)"
proof -
  from evict_oldest_nonempty[OF ne] obtain k e where
    e: "map_of (cache c) k = Some e" and
    ev: "evict_oldest c = c\<lparr>cache := AList.delete k (cache c)\<rparr>"
    by (elim exE conjE)
  have "k \<in> fst ` set (cache c)" using e by (rule key_in_dom)
  then have "length (AList.delete k (cache c)) < length (cache c)" by (rule length_delete_less)
  then show ?thesis by (simp add: ev)
qed

lemma evict_oldest_fields:
  "max_size (evict_oldest c) = max_size c \<and> ttl_seconds (evict_oldest c) = ttl_seconds c"
  by (cases "map fst (cache c)") (simp_all add: evict_oldest_def Let_def)

lemma evict_oldest_wf: "wf_dict (cache c) \<Longrightarrow> wf_dict (cache (evict_oldest c))"
  by (cases "map fst (cache c)") (simp_all add: evict_oldest_def Let_def wf_dict_def AList.distinct_delete)

lemma set_fields:
  "max_size (SearchCache_set B c q p r kw now) = max_size c
   \<and> ttl_seconds (SearchCache_set B c q p r kw now) = ttl_seconds c"
  by (simp add: SearchCache_set_def Let_def evict_oldest_fields)

lemma set_wf:
  "wf_dict (cache c) \<Longrightarrow> wf_dict (cache (SearchCache_set B c q p r kw now))"
proof -
  assume wf: "wf_dict (cache c)"
  have "wf_dict (cache (evict_oldest c))" using wf by (rule evict_oldest_wf)
  then show ?thesis using wf
    by (simp add: SearchCache_set_def Let_def wf_dict_def AList.distinct_update)
qed

lemma set_bound:
  assumes pos: "0 < max_size c" and inv: "int (length (cache c)) \<le> max_size c"
  shows "int (length (cache (SearchCache_set B c q p r kw now))) \<le> max_size c"
proof (cases "max_size c \<le> int (length (cache c))")
  case True
  have ne: "cache c \<noteq> []" using pos True by (rule full_nonempty)
  have less: "length (cache (evict_oldest c)) < length (cache c)"
    using ne by (rule evict_oldest_shrinks)
  have "length (AList.update (make_key B q p kw) \<lparr>result = r, created_at = now, hits = 0\<rparr>
          (cache (evict_oldest c))) \<le> Suc (length (cache (evict_oldest c)))"
    by (rule length_update_le)
  then have "length (cache (SearchCache_set B c q p r kw now)) \<le> length (cache c)"
    using less by (simp add: set_at_capacity[OF True])
  then show ?thesis using inv by linarith
next
  case False
  then have low: "int (length (cache c)) < max_size c" by simp
  have "length (AList.update (make_key B q p kw) \<lparr>result = r, created_at = now, hits = 0\<rparr>
          (cache c)) \<le> Suc (length (cache c))"
    by (rule length_update_le)
  then have "length (cache (SearchCache_set B c q p r kw now)) \<le> Suc (length (cache c))"
    by (simp add: set_below_capacity[OF low])
  then show ?thesis using low by linarith
qed

lemma get_state:
  "snd (SearchCache_get B c q p kw now) = c
   \<or> (\<exists>k. snd (SearchCache_get B c q p kw now) = c\<lparr>cache := AList.delete k (cache c)\<rparr>)
   \<or> (\<exists>k e. k \<in> fst ` set (cache c)
         \<and> snd (SearchCache_get B c q p kw now) = c\<lparr>cache := AList.update k e (cache c)\<rparr>)"
proof (cases "map_of (cache c) (make_key B q p kw)")
  case None
  then show ?thesis by (simp add: get_miss)
next
  case (Some e)
  have kin: "make_key B q p kw \<in> fst ` set (cache c)" using Some by (rule key_in_dom)
  show ?thesis
  proof (cases "now - created_at e > real_of_int (ttl_seconds c)")
    case True
    have "snd (SearchCache_get B c q p kw now) = c\<lparr>cache := AList.delete (make_key B q p kw) (cache c)\<rparr>"
      by (simp add: get_expired[OF Some True])
    then show ?thesis by blast
  next
    case False
    have "snd (SearchCache_get B c q p kw now)
        = c\<lparr>cache := AList.update (make_key B q p kw) (e\<lparr>hits := hits e + 1\<rparr>) (cache c)\<rparr>"
      by (simp add: get_fresh[OF Some False])
    then show ?thesis using kin by blast
  qed
qed

lemma get_bound:
  "length (cache (snd (SearchCache_get B c q p kw now))) \<le> length (cache c)
   \<and> max_size (snd (SearchCache_get B c q p kw now)) = max_size c
   \<and> ttl_seconds (snd (SearchCache_get B c q p kw now)) = ttl_seconds c"
  using get_state[of B c q p kw now]
  by (elim disjE exE conjE) (simp_all add: AList.length_delete_le length_update_present)

lemma get_wf:
  "wf_dict (cache c) \<Longrightarrow> wf_dict (cache (snd (SearchCache_get B c q p kw now)))"
  using get_state[of B c q p kw now]
  by (elim disjE exE conjE)
     (simp_all add: wf_dict_def AList.distinct_delete AList.distinct_update)

lemma step_bounded:
  assumes pos: "0 < max_size c" and inv: "bounded c"
  shows "bounded (step B c call) \<and> max_size (step B c call) = max_size c"
proof (cases call)
  case (Get q p kw now)
  have "length (cache (snd (SearchCache_get B c q p kw now))) \<le> length (cache c)"
    using get_bound by blast
  then have "int (length (cache (snd (SearchCache_get B c q p kw now)))) \<le> max_size c"
    using inv by (simp add: bounded_def)
  moreover have "wf_dict (cache (snd (SearchCache_get B c q p kw now)))"
    using inv by (simp add: bounded_def get_wf)
  ultimately show ?thesis using Get by (simp add: bounded_def get_bound)
next
  case (Set q p r kw now)
  have "int (length (cache (SearchCache_set B c q p r kw now))) \<le> max_size c"
    using pos inv by (simp add: bounded_def set_bound)
  moreover have "wf_dict (cache (SearchCache_set B c q p r kw now))"
    using inv by (simp add: bounded_def set_wf)
  ultimately show ?thesis using Set by (simp add: bounded_def set_fields)
next
  case Clear
  then show ?thesis using pos by (simp add: bounded_def SearchCache_clear_def wf_dict_def)
qed

lemma run_bounded:
  "0 < max_size c \<Longrightarrow> bounded c
   \<Longrightarrow> bounded (run B c calls) \<and> max_size (run B c calls) = max_size c"
proof (induction calls arbitrary: c)
  case Nil
  then show ?case by (simp add: run_def)
next
  case (Cons call calls)
  have s: "bounded (step B c call) \<and> max_size (step B c call) = max_size c"
    using Cons.prems by (rule step_bounded)
  then have "0 < max_size (step B c call)" using Cons.prems(1) by simp
  then have "bounded (run B (step B c call) calls)
      \<and> max_size (run B (step B c call) calls) = max_size (step B c call)"
    using s by (intro Cons.IH) simp_all
  then show ?case using s by (simp add: run_def)
qed

text \<open>
  Claim C5. For a cache constructed with a positive \<open>max_size\<close>, after every completed
  call of every sequence of \<^verbatim>\<open>get\<close>, \<^verbatim>\<open>set\<close> and \<^verbatim>\<open>clear\<close> calls that starts from the
  empty cache, the number of keys of the map is at most \<open>max_size\<close>. The state after the
  first \<open>n\<close> calls of a sequence is the run of its prefix of length \<open>n\<close>; the keys stay
  pairwise different, so the length of the list is the cardinality of the map.
\<close>

theorem cardinality_bounded:
  fixes calls :: "('r, 'v) call list"
  assumes pos: "0 < ms"
  shows "int (card (dom (map_of (cache (run B (SearchCache_init ms ttl) (take n calls)))))) \<le> ms
       \<and> int (length (cache (run B (SearchCache_init ms ttl) (take n calls)))) \<le> ms
       \<and> wf_dict (cache (run B (SearchCache_init ms ttl) (take n calls)))"
proof -
  define c0 :: "'r SearchCache" where "c0 = SearchCache_init ms ttl"
  have m: "max_size c0 = ms" by (simp add: c0_def SearchCache_init_def)
  have b0: "bounded c0" using pos by (simp add: c0_def SearchCache_init_def bounded_def wf_dict_def)
  have "bounded (run B c0 (take n calls)) \<and> max_size (run B c0 (take n calls)) = max_size c0"
    using pos b0 by (intro run_bounded) (simp_all add: m)
  then have b: "wf_dict (cache (run B c0 (take n calls)))"
     and l: "int (length (cache (run B c0 (take n calls)))) \<le> ms"
    by (simp_all add: bounded_def m)
  have "card (dom (map_of (cache (run B c0 (take n calls))))) = length (cache (run B c0 (take n calls)))"
    using b by (simp add: wf_dict_def dom_map_of_conv_image_fst distinct_card flip: set_map)
  then show ?thesis using b l by (simp add: c0_def)
qed

theorem cardinality_bounded_witness:
  "(0::int) < 2
   \<and> int (card (dom (map_of (cache (run demo_builtins (SearchCache_init 2 60) (take 8 demo_calls)))))) \<le> 2
   \<and> int (length (cache (run demo_builtins (SearchCache_init 2 60) (take 8 demo_calls)))) \<le> 2
   \<and> wf_dict (cache (run demo_builtins (SearchCache_init 2 60) (take 8 demo_calls)))"
proof -
  have h: "(0::int) < 2" by simp
  show ?thesis
    using h cardinality_bounded[OF h, of demo_builtins 60 8 demo_calls] by (simp only: simp_thms)
qed

text \<open>
  Claim C10. The constructor checks nothing, and it is a total function: with a
  \<open>max_size\<close> of zero or below it returns an empty cache. A \<^verbatim>\<open>set\<close> on that cache runs
  the eviction, which does nothing on the empty dict, and stores the entry, so that the
  dict holds one entry, more than \<open>max_size\<close>. In general an eviction removes at most one
  entry of a dict.
\<close>

theorem nonpositive_max_size_overflows:
  fixes res :: 'r and c :: "'r SearchCache"
  assumes np: "ms \<le> 0"
  shows "max_size (SearchCache_init ms ttl :: 'r SearchCache) = ms
       \<and> cache (SearchCache_init ms ttl :: 'r SearchCache) = []
       \<and> evict_oldest (SearchCache_init ms ttl :: 'r SearchCache) = SearchCache_init ms ttl
       \<and> cache (SearchCache_set B (SearchCache_init ms ttl) query path res kwargs now)
           = [(make_key B query path kwargs, \<lparr>result = res, created_at = now, hits = 0\<rparr>)]
       \<and> max_size (SearchCache_set B (SearchCache_init ms ttl) query path res kwargs now)
           < int (length (cache (SearchCache_set B (SearchCache_init ms ttl) query path res kwargs now)))
       \<and> (wf_dict (cache c) \<longrightarrow> length (cache c) \<le> Suc (length (cache (evict_oldest c))))"
proof (intro conjI impI)
  show "max_size (SearchCache_init ms ttl :: 'r SearchCache) = ms"
    by (simp add: SearchCache_init_def)
  show e: "cache (SearchCache_init ms ttl :: 'r SearchCache) = []"
    by (simp add: SearchCache_init_def)
  show ev: "evict_oldest (SearchCache_init ms ttl :: 'r SearchCache) = SearchCache_init ms ttl"
    using e by (rule evict_oldest_empty)
  have full: "max_size (SearchCache_init ms ttl) \<le> int (length (cache (SearchCache_init ms ttl)))"
    using np by (simp add: SearchCache_init_def)
  show s: "cache (SearchCache_set B (SearchCache_init ms ttl) query path res kwargs now)
           = [(make_key B query path kwargs, \<lparr>result = res, created_at = now, hits = 0\<rparr>)]"
    by (simp add: set_at_capacity[OF full] ev e)
  show "max_size (SearchCache_set B (SearchCache_init ms ttl) query path res kwargs now)
           < int (length (cache (SearchCache_set B (SearchCache_init ms ttl) query path res kwargs now)))"
  proof -
    have m: "max_size (SearchCache_set B (SearchCache_init ms ttl) query path res kwargs now) = ms"
      by (simp add: set_fields SearchCache_init_def)
    show ?thesis using np by (simp only: s m) simp
  qed
next
  assume wf: "wf_dict (cache c)"
  show "length (cache c) \<le> Suc (length (cache (evict_oldest c)))"
  proof (cases "cache c = []")
    case True
    then show ?thesis by simp
  next
    case False
    from evict_oldest_nonempty[OF False] obtain k e where
      e: "map_of (cache c) k = Some e" and
      ev: "evict_oldest c = c\<lparr>cache := AList.delete k (cache c)\<rparr>"
      by (elim exE conjE)
    have kin: "k \<in> fst ` set (cache c)" using e by (rule key_in_dom)
    have d: "distinct (map fst (cache c))" using wf by (simp add: wf_dict_def)
    show ?thesis using length_delete_wf[OF d kin] by (simp add: ev)
  qed
qed

theorem nonpositive_max_size_overflows_witness:
  "(0::int) \<le> 0
   \<and> cache (SearchCache_set demo_builtins (SearchCache_init 0 300) ''q'' ''p'' (7::nat) [] 1)
       = [(''q:p:[]'', \<lparr>result = 7, created_at = 1, hits = 0\<rparr>)]
   \<and> max_size (SearchCache_set demo_builtins (SearchCache_init 0 300) ''q'' ''p'' (7::nat) [] 1)
       < int (length (cache (SearchCache_set demo_builtins (SearchCache_init 0 300) ''q'' ''p'' (7::nat) [] 1)))
   \<and> wf_dict (cache demo_cache)
   \<and> length (cache demo_cache) \<le> Suc (length (cache (evict_oldest demo_cache)))"
proof -
  have h: "(0::int) \<le> 0" by simp
  have w: "wf_dict (cache demo_cache)" by (simp add: wf_dict_def demo_cache_def)
  have k: "make_key demo_builtins ''q'' ''p'' [] = ''q:p:[]''" by (simp add: demo_key)
  note t = nonpositive_max_size_overflows[OF h, of 300 demo_builtins "''q''" "''p''" "7::nat" "[]" 1 demo_cache]
  have a: "cache (SearchCache_set demo_builtins (SearchCache_init 0 300) ''q'' ''p'' (7::nat) [] 1)
       = [(''q:p:[]'', \<lparr>result = 7, created_at = 1, hits = 0\<rparr>)]"
    using t by (simp only: k)
  have b: "max_size (SearchCache_set demo_builtins (SearchCache_init 0 300) ''q'' ''p'' (7::nat) [] 1)
       < int (length (cache (SearchCache_set demo_builtins (SearchCache_init 0 300) ''q'' ''p'' (7::nat) [] 1)))"
    using t by (elim conjE)
  have c: "length (cache demo_cache) \<le> Suc (length (cache (evict_oldest demo_cache)))"
    using t w by (elim conjE impE)
  show ?thesis by (intro conjI h w a b c)
qed

section \<open>Statistics\<close>

lemma foldl_plus: "foldl (+) a xs = a + sum_list xs" for a :: int
  by (induction xs arbitrary: a) simp_all

lemma py_sum_sum_list: "py_sum xs = sum_list xs"
  by (simp add: py_sum_def foldl_plus)

lemma stats_entries: "map_of (SearchCache_stats c) ''entries'' = Some (int (length (cache c)))"
  by (simp add: SearchCache_stats_def Let_def)

lemma stats_max_size: "map_of (SearchCache_stats c) ''max_size'' = Some (max_size c)"
  by (simp add: SearchCache_stats_def Let_def)

lemma stats_total_hits:
  "map_of (SearchCache_stats c) ''total_hits'' = Some (sum_list (map (\<lambda>p. hits (snd p)) (cache c)))"
  by (simp add: SearchCache_stats_def Let_def py_sum_sum_list comp_def)

lemma card_dom_wf: "distinct (map fst d) \<Longrightarrow> card (dom (map_of d)) = length d"
proof -
  assume d: "distinct (map fst d)"
  have "card (dom (map_of d)) = card (set (map fst d))" by (simp add: dom_map_of_conv_image_fst)
  also have "\<dots> = length (map fst d)" using d by (rule distinct_card)
  finally show ?thesis by simp
qed

lemma hits_delete:
  "distinct (map fst d) \<Longrightarrow> map_of d k = Some e
   \<Longrightarrow> sum_list (map (\<lambda>p. hits (snd p)) d)
       = hits e + sum_list (map (\<lambda>p. hits (snd p)) (AList.delete k d))"
proof (induction d)
  case Nil
  then show ?case by simp
next
  case (Cons p ps)
  show ?case
  proof (cases "fst p = k")
    case True
    then have "k \<notin> fst ` set ps" using Cons.prems(1) by auto
    then have "AList.delete k ps = ps" by (rule AList.delete_id)
    moreover have "snd p = e" using Cons.prems(2) True by simp
    ultimately show ?thesis using True by simp
  next
    case False
    then have "map_of ps k = Some e" using Cons.prems(2) by simp
    moreover have "distinct (map fst ps)" using Cons.prems(1) by simp
    ultimately have "sum_list (map (\<lambda>p. hits (snd p)) ps)
       = hits e + sum_list (map (\<lambda>p. hits (snd p)) (AList.delete k ps))"
      by (intro Cons.IH)
    then show ?thesis using False by simp
  qed
qed

text \<open>
  Claim C7. For every cache state, \<^verbatim>\<open>stats\<close> reports under \<open>entries\<close> the cardinality of
  the map and under \<open>total_hits\<close> the sum of \<open>hits\<close> over the stored entries. The clock
  is not an input of \<^verbatim>\<open>stats\<close>: an entry that has expired and has not been purged counts
  as one entry and adds its hits, and once a \<^verbatim>\<open>get\<close> has removed it the two numbers are
  lower by one and by its hits.
\<close>

theorem stats_counts_stored_entries:
  assumes wf: "wf_dict (cache c)"
  shows "map_of (SearchCache_stats c) ''entries'' = Some (int (card (dom (map_of (cache c)))))
       \<and> map_of (SearchCache_stats c) ''total_hits''
           = Some (sum_list (map (\<lambda>p. hits (snd p)) (cache c)))
       \<and> map_of (SearchCache_stats c) ''max_size'' = Some (max_size c)
       \<and> (\<forall>e. map_of (cache c) (make_key B query path kwargs) = Some e
                \<and> now - created_at e > real_of_int (ttl_seconds c) \<longrightarrow>
             map_of (SearchCache_stats c) ''total_hits''
               = Some (hits e + the (map_of (SearchCache_stats
                                  (snd (SearchCache_get B c query path kwargs now))) ''total_hits''))
             \<and> map_of (SearchCache_stats c) ''entries''
               = Some (1 + the (map_of (SearchCache_stats
                                  (snd (SearchCache_get B c query path kwargs now))) ''entries'')))"
proof (intro conjI allI impI)
  have d: "distinct (map fst (cache c))" using wf by (simp add: wf_dict_def)
  show "map_of (SearchCache_stats c) ''entries'' = Some (int (card (dom (map_of (cache c)))))"
    by (simp only: stats_entries card_dom_wf[OF d])
  show "map_of (SearchCache_stats c) ''total_hits''
           = Some (sum_list (map (\<lambda>p. hits (snd p)) (cache c)))"
    by (rule stats_total_hits)
  show "map_of (SearchCache_stats c) ''max_size'' = Some (max_size c)"
    by (rule stats_max_size)
  fix e assume a: "map_of (cache c) (make_key B query path kwargs) = Some e
                \<and> now - created_at e > real_of_int (ttl_seconds c)"
  define k where "k = make_key B query path kwargs"
  have e: "map_of (cache c) k = Some e" using a by (simp add: k_def)
  have g: "snd (SearchCache_get B c query path kwargs now) = c\<lparr>cache := AList.delete k (cache c)\<rparr>"
    using get_expired[of c B query path kwargs e now] a by (simp add: k_def)
  show "map_of (SearchCache_stats c) ''total_hits''
               = Some (hits e + the (map_of (SearchCache_stats
                                  (snd (SearchCache_get B c query path kwargs now))) ''total_hits''))"
    using hits_delete[OF d e] by (simp add: g stats_total_hits)
  have "k \<in> fst ` set (cache c)" using e by (rule key_in_dom)
  then have "Suc (length (AList.delete k (cache c))) = length (cache c)"
    using d by (intro length_delete_wf)
  then show "map_of (SearchCache_stats c) ''entries''
               = Some (1 + the (map_of (SearchCache_stats
                                  (snd (SearchCache_get B c query path kwargs now))) ''entries''))"
    by (simp add: g stats_entries)
qed

theorem stats_counts_stored_entries_witness:
  "wf_dict (cache demo_cache)
   \<and> map_of (cache demo_cache) (make_key demo_builtins ''r'' ''p'' [])
       = Some \<lparr>result = 8, created_at = 130, hits = 4\<rparr>
   \<and> 1000 - created_at \<lparr>result = 8::nat, created_at = 130, hits = 4\<rparr> > real_of_int (ttl_seconds demo_cache)
   \<and> map_of (SearchCache_stats demo_cache) ''entries'' = Some 2
   \<and> map_of (SearchCache_stats demo_cache) ''total_hits'' = Some 4
   \<and> map_of (SearchCache_stats demo_cache) ''total_hits''
       = Some (4 + the (map_of (SearchCache_stats
                   (snd (SearchCache_get demo_builtins demo_cache ''r'' ''p'' [] 1000))) ''total_hits''))
   \<and> map_of (SearchCache_stats demo_cache) ''entries''
       = Some (1 + the (map_of (SearchCache_stats
                   (snd (SearchCache_get demo_builtins demo_cache ''r'' ''p'' [] 1000))) ''entries''))"
proof -
  have w: "wf_dict (cache demo_cache)" by (simp add: wf_dict_def demo_cache_def)
  have m: "map_of (cache demo_cache) (make_key demo_builtins ''r'' ''p'' [])
       = Some \<lparr>result = 8, created_at = 130, hits = 4\<rparr>"
    by (simp add: demo_key demo_cache_def)
  have x: "1000 - created_at \<lparr>result = 8::nat, created_at = 130, hits = 4\<rparr> > real_of_int (ttl_seconds demo_cache)"
    by (simp add: demo_cache_def)
  note t = stats_counts_stored_entries[OF w, of demo_builtins "''r''" "''p''" "[]" 1000]
  have n: "map_of (SearchCache_stats demo_cache) ''entries'' = Some 2"
    using t by (simp add: demo_cache_def)
  have h: "map_of (SearchCache_stats demo_cache) ''total_hits'' = Some 4"
    using t by (simp add: demo_cache_def)
  have p: "map_of (SearchCache_stats demo_cache) ''total_hits''
       = Some (4 + the (map_of (SearchCache_stats
                   (snd (SearchCache_get demo_builtins demo_cache ''r'' ''p'' [] 1000))) ''total_hits''))
     \<and> map_of (SearchCache_stats demo_cache) ''entries''
       = Some (1 + the (map_of (SearchCache_stats
                   (snd (SearchCache_get demo_builtins demo_cache ''r'' ''p'' [] 1000))) ''entries''))"
    using t[THEN conjunct2, THEN conjunct2, THEN conjunct2, rule_format, OF conjI[OF m x]]
    by (simp only: CacheEntry.simps)
  show ?thesis using w m x n h p by (simp only: simp_thms)
qed

end
